theory Spec2Isabelle
  imports Main "HOL-Library.Sublist"
begin

section \<open>Characters and strings\<close>

text \<open>
  JavaScript strings are modelled as \<^typ>\<open>string\<close>, lists of 8-bit characters: the model
  covers the paths whose code units lie below 256. Of the four line terminators that the
  regular expression dot refuses, line feed and carriage return are in that range.
\<close>

definition NL :: char where
  "NL = CHR 0x0A"

definition TAB :: char where
  "TAB = CHR 0x09"

definition isDigit :: "char \<Rightarrow> bool" where
  \<comment> \<open>the class \<open>\d\<close>\<close>
  "isDigit c = (c \<in> set ''0123456789'')"

definition isAlpha :: "char \<Rightarrow> bool" where
  \<comment> \<open>the class \<open>[a-z]\<close> under the flag \<open>i\<close>\<close>
  "isAlpha c = (c \<in> set ''abcdefghijklmnopqrstuvwxyzABCDEFGHIJKLMNOPQRSTUVWXYZ'')"

definition isX :: "char \<Rightarrow> bool" where
  \<comment> \<open>the literal \<open>x\<close> under the flag \<open>i\<close>\<close>
  "isX c = (c = CHR ''x'' \<or> c = CHR ''X'')"

definition isLineTerminator :: "char \<Rightarrow> bool" where
  "isLineTerminator c = (c = CHR 0x0A \<or> c = CHR 0x0D)"

definition notLineTerminator :: "char \<Rightarrow> bool" where
  \<comment> \<open>the regular expression dot\<close>
  "notLineTerminator c = (\<not> isLineTerminator c)"

definition digitValue :: "char \<Rightarrow> nat" where
  \<comment> \<open>\<open>parseInt(d, 10)\<close> for one decimal digit\<close>
  "digitValue c = of_char c - 48"

fun showNat :: "nat \<Rightarrow> string" where
  \<comment> \<open>the decimal text that a template literal gives for a natural number\<close>
  "showNat n = (if n < 10 then [char_of (48 + n)] else showNat (n div 10) @ [char_of (48 + n mod 10)])"

declare showNat.simps [simp del]

fun joinWith :: "string \<Rightarrow> string list \<Rightarrow> string" where
  \<comment> \<open>\<open>Array.prototype.join\<close>\<close>
  "joinWith sep [] = []"
| "joinWith sep [x] = x"
| "joinWith sep (x # y # ys) = x @ sep @ joinWith sep (y # ys)"

fun splitOn :: "char \<Rightarrow> string \<Rightarrow> string list" where
  \<comment> \<open>\<open>String.prototype.split\<close> with a separator of one character\<close>
  "splitOn sep [] = [[]]"
| "splitOn sep (c # cs) =
     (if c = sep then [] # splitOn sep cs
      else (case splitOn sep cs of [] \<Rightarrow> [[c]] | w # ws \<Rightarrow> (c # w) # ws))"

definition pop :: "string list \<Rightarrow> string option" where
  \<comment> \<open>\<open>Array.prototype.pop\<close>: the last element, \<open>undefined\<close> on an empty array\<close>
  "pop xs = (case rev xs of [] \<Rightarrow> None | x # _ \<Rightarrow> Some x)"

fun removeFirst :: "string \<Rightarrow> string \<Rightarrow> string" where
  \<comment> \<open>\<open>s.replace(pat, '')\<close> with a string pattern: the first occurrence goes\<close>
  "removeFirst pat [] = []"
| "removeFirst pat (c # cs) =
     (if prefix pat (c # cs) then drop (length pat) (c # cs) else c # removeFirst pat cs)"

definition basename :: "string \<Rightarrow> string" where
  \<comment> \<open>\<open>path.basename\<close> of POSIX: trailing slashes are skipped, then the text after the
      last slash is taken\<close>
  "basename p =
     rev (takeWhile (\<lambda>c. c \<noteq> CHR ''/'') (dropWhile (\<lambda>c. c = CHR ''/'') (rev p)))"

section \<open>The functions the program imports\<close>

record dimensions =
  width :: nat
  height :: nat

text \<open>
  The modules \<open>lodash.kebabcase\<close>, \<open>image-size\<close>, \<open>path\<close> and \<open>slash\<close> are not part of
  the program. Their functions are parameters of the model: \<open>kebabCase\<close>, \<open>sizeOf\<close>
  (taken to return the dimensions of every path it is given) and \<open>relativeUrl\<close>, which
  stands for \<open>slash(path.relative(path.dirname(stylesheet), image))\<close>. So is
  \<open>quotientText\<close>, the text that a template literal gives for the quotient of two
  numbers: a floating-point division followed by the conversion of a number to a string.
\<close>

record externals =
  kebabCase :: "string \<Rightarrow> string"
  sizeOf :: "string \<Rightarrow> dimensions"
  relativeUrl :: "string \<Rightarrow> string \<Rightarrow> string"
  quotientText :: "nat \<Rightarrow> nat \<Rightarrow> string"

section \<open>getRatio\<close>

fun ratioMatchAt :: "string \<Rightarrow> char option" where
  \<comment> \<open>\<open>/@(\d)x\.[a-z]{3,4}$/i\<close> matched from the first character on; the result is group 1\<close>
  "ratioMatchAt (a # d # x # p # ext) =
     (if a = CHR ''@'' \<and> isDigit d \<and> isX x \<and> p = CHR ''.''
         \<and> (length ext = 3 \<or> length ext = 4) \<and> list_all isAlpha ext
      then Some d else None)"
| "ratioMatchAt _ = None"

fun ratioExec :: "string \<Rightarrow> char option" where
  \<comment> \<open>\<open>exec\<close>: the leftmost position with a match\<close>
  "ratioExec [] = None"
| "ratioExec (c # cs) =
     (case ratioMatchAt (c # cs) of Some d \<Rightarrow> Some d | None \<Rightarrow> ratioExec cs)"

definition getRatio :: "string \<Rightarrow> nat" where
  "getRatio file = (case ratioExec file of Some d \<Rightarrow> digitValue d | None \<Rightarrow> 1)"

section \<open>getSelector\<close>

definition extTail :: "string \<Rightarrow> bool" where
  \<comment> \<open>\<open>\..+$\<close> matched from the first character on\<close>
  "extTail s =
     (case s of [] \<Rightarrow> False
      | c # r \<Rightarrow> c = CHR ''.'' \<and> r \<noteq> [] \<and> list_all notLineTerminator r)"

definition densityGroup :: "string \<Rightarrow> string option" where
  \<comment> \<open>\<open>(@\d+x)\<close> matched from the first character on; the result is the input left\<close>
  "densityGroup s =
     (case s of [] \<Rightarrow> None
      | c # r \<Rightarrow>
          if c = CHR ''@'' \<and> takeWhile isDigit r \<noteq> []
          then (case dropWhile isDigit r of [] \<Rightarrow> None
                | x # u \<Rightarrow> if isX x then Some u else None)
          else None)"

definition suffixMatchAt :: "string \<Rightarrow> bool" where
  \<comment> \<open>\<open>/(@\d+x)?\..+$/i\<close> matched from the first character on: with the group first,
      without it otherwise\<close>
  "suffixMatchAt s =
     ((case densityGroup s of Some u \<Rightarrow> extTail u | None \<Rightarrow> False) \<or> extTail s)"

fun stripSuffix :: "string \<Rightarrow> string" where
  \<comment> \<open>\<open>name.replace(/(@\d+x)?\..+$/gi, '')\<close>: a match reaches the end of the name, so the
      leftmost one is the only one and the text before it stays\<close>
  "stripSuffix [] = []"
| "stripSuffix (c # cs) = (if suffixMatchAt (c # cs) then [] else c # stripSuffix cs)"

definition truthy :: "string option \<Rightarrow> bool" where
  \<comment> \<open>\<open>undefined\<close> and the empty string are falsy\<close>
  "truthy v = (case v of None \<Rightarrow> False | Some s \<Rightarrow> s \<noteq> [])"

definition pseudoSelector :: "string \<Rightarrow> string \<Rightarrow> string" where
  \<comment> \<open>the template literal of six lines that \<open>getSelector\<close> returns for a pseudo state\<close>
  "pseudoSelector base pseudo =
     ''.'' @ base @ ''-'' @ pseudo @ '','' @ [NL] @
     ''a:'' @ pseudo @ '' .'' @ base @ '','' @ [NL] @
     ''button:'' @ pseudo @ '' .'' @ base @ '','' @ [NL] @
     ''a.'' @ pseudo @ '' .'' @ base @ '','' @ [NL] @
     ''button.'' @ pseudo @ '' .'' @ base @ '','' @ [NL] @
     ''.'' @ base @ ''.'' @ pseudo"

definition getBase :: "string \<Rightarrow> string option" where
  \<comment> \<open>the variable \<open>base\<close>: assigned \<open>name.replace(name.split('_').pop(), '')\<close> when the
      name has an underscore, \<open>undefined\<close> otherwise\<close>
  "getBase name =
     (if CHR ''_'' \<in> set name
      then (case pop (splitOn CHR ''_'' name) of None \<Rightarrow> None
            | Some p \<Rightarrow> Some (removeFirst p name))
      else None)"

definition getPseudo :: "string \<Rightarrow> string option" where
  \<comment> \<open>the variable \<open>pseudo\<close>: assigned \<open>name.split('_').pop()\<close> when the name has an
      underscore, \<open>undefined\<close> otherwise\<close>
  "getPseudo name =
     (if CHR ''_'' \<in> set name then pop (splitOn CHR ''_'' name) else None)"

definition getSelector :: "externals \<Rightarrow> string \<Rightarrow> string" where
  "getSelector ext file =
     (let name = stripSuffix (basename file);
          base = getBase name;
          pseudo = getPseudo name
      in if truthy base \<and> truthy pseudo
         then pseudoSelector (the base) (the pseudo)
         else CHR ''.'' # kebabCase ext name)"

section \<open>prepareImages\<close>

record image =
  url :: string
  size' :: dimensions
  ratio :: nat
  selector :: string

definition makeImage :: "externals \<Rightarrow> string \<Rightarrow> string \<Rightarrow> image" where
  \<comment> \<open>the function that \<open>prepareImages\<close> maps over the paths\<close>
  "makeImage ext stylesheet file =
     \<lparr>url = relativeUrl ext stylesheet file, size' = sizeOf ext file,
      ratio = getRatio file, selector = getSelector ext file\<rparr>"

definition sortBy :: "image list \<Rightarrow> image list" where
  \<comment> \<open>\<open>sortBy(images, 'ratio')\<close> of lodash: ascending and stable\<close>
  "sortBy images = sort_key ratio images"

text \<open>
  \<open>groupBy(images, 'ratio')\<close> builds an object whose keys are the ratios. Such keys are
  array indices, which an object enumerates in ascending numeric order whatever the order
  they were added in. The object is an association list kept in that order.
\<close>

fun groupAdd :: "image \<Rightarrow> (nat \<times> image list) list \<Rightarrow> (nat \<times> image list) list" where
  "groupAdd im [] = [(ratio im, [im])]"
| "groupAdd im ((k, g) # rest) =
     (if ratio im = k then (k, g @ [im]) # rest
      else if ratio im < k then (ratio im, [im]) # (k, g) # rest
      else (k, g) # groupAdd im rest)"

definition groupBy :: "image list \<Rightarrow> (nat \<times> image list) list" where
  "groupBy images = foldl (\<lambda>result im. groupAdd im result) [] images"

definition prepareImages :: "externals \<Rightarrow> string list \<Rightarrow> string \<Rightarrow> (nat \<times> image list) list" where
  "prepareImages ext images stylesheet =
     groupBy (sortBy (map (makeImage ext stylesheet) images))"

section \<open>compileCSS and processImages\<close>

definition cssRule :: "externals \<Rightarrow> image \<Rightarrow> string" where
  \<comment> \<open>the function that \<open>compileCSS\<close> maps over the images of a group\<close>
  "cssRule ext im =
     selector im @ '' { background: url('' @ url im
       @ '') no-repeat 0 0; background-size: 100% 100%; width: ''
       @ quotientText ext (width (size' im)) (ratio im) @ ''px; height: ''
       @ quotientText ext (height (size' im)) (ratio im)
       @ ''px; display: inline-block; vertical-align: middle; font-size: 0; }''"

definition mediaQuery :: "nat \<Rightarrow> string \<Rightarrow> string" where
  \<comment> \<open>the template literal that \<open>compileCSS\<close> returns for a ratio above 1\<close>
  "mediaQuery r body =
     ''@media (-webkit-min-device-pixel-ratio: '' @ showNat r @ ''), (min-resolution: ''
       @ showNat (r * 96) @ ''dpi) {'' @ [NL, TAB] @ body @ [NL] @ ''}''"

definition compileCSS :: "externals \<Rightarrow> image list \<Rightarrow> nat \<Rightarrow> string" where
  \<comment> \<open>\<open>map(groups, compileCSS)\<close> passes a group and its key: the key is the decimal text
      of the ratio, which \<open>>\<close> and \<open>*\<close> read as that number\<close>
  "compileCSS ext images r =
     (let body = joinWith [NL] (map (cssRule ext) images)
      in if r > 1 then mediaQuery r body else body)"

definition processImages :: "externals \<Rightarrow> string list \<Rightarrow> string \<Rightarrow> string" where
  \<comment> \<open>the text handed to \<open>fs.outputFileSync\<close>, for the paths that \<open>globby\<close> found\<close>
  "processImages ext paths stylesheet =
     joinWith [NL, NL]
       (map (\<lambda>(r, images). compileCSS ext images r) (prepareImages ext paths stylesheet))"

section \<open>An instance of the imported functions\<close>

definition toLower :: "char \<Rightarrow> char" where
  \<comment> \<open>lower case of an ASCII letter\<close>
  "toLower c =
     (case map_of (zip ''ABCDEFGHIJKLMNOPQRSTUVWXYZ'' ''abcdefghijklmnopqrstuvwxyz'') c of
        None \<Rightarrow> c | Some l \<Rightarrow> l)"

fun wordsOf :: "string \<Rightarrow> string list" where
  \<comment> \<open>the runs of ASCII letters and digits, and an empty run at every other character\<close>
  "wordsOf [] = [[]]"
| "wordsOf (c # cs) =
     (if isAlpha c \<or> isDigit c
      then (case wordsOf cs of [] \<Rightarrow> [[c]] | w # ws \<Rightarrow> (c # w) # ws)
      else [] # wordsOf cs)"

definition kebabCaseWords :: "string \<Rightarrow> string" where
  \<comment> \<open>Modelled from the spec: \<open>lodash.kebabcase\<close> is a dependency whose code is not in the
      repository. The specification calls its result lowercase, hyphen-separated words;
      the words here are the maximal runs of ASCII letters and digits.\<close>
  "kebabCaseWords s = joinWith ''-'' (map (map toLower) (filter (\<lambda>w. w \<noteq> []) (wordsOf s)))"

definition exampleExternals :: externals where
  \<comment> \<open>every image is 50 by 50 pixels, the stylesheet is one directory below the images'
      root, and the quotient text is right where the divisor is zero or divides the dividend\<close>
  "exampleExternals =
     \<lparr>kebabCase = kebabCaseWords,
      sizeOf = (\<lambda>file. \<lparr>width = 50, height = 50\<rparr>),
      relativeUrl = (\<lambda>stylesheet file. ''../'' @ file),
      quotientText =
        (\<lambda>a b. if b = 0 then (if a = 0 then ''NaN'' else ''Infinity'') else showNat (a div b))\<rparr>"

section \<open>Notions of the specification\<close>

text \<open>
  The specification splits a name at its last underscore. The two parts are defined here
  in its words, to be compared with what \<open>getSelector\<close> computes.
\<close>

definition textAfterLast :: "char \<Rightarrow> string \<Rightarrow> string" where
  "textAfterLast c s = rev (takeWhile (\<lambda>x. x \<noteq> c) (rev s))"

definition textBeforeLast :: "char \<Rightarrow> string \<Rightarrow> string" where
  "textBeforeLast c s = rev (tl (dropWhile (\<lambda>x. x \<noteq> c) (rev s)))"

section \<open>Properties of the two regular expressions and of basename\<close>

lemma isX_not_digit: "isX x \<Longrightarrow> \<not> isDigit x"
  by (auto simp: isX_def isDigit_def)

lemma at_not_digit: "\<not> isDigit CHR ''@''"
  by (simp add: isDigit_def)

lemma isAlpha_not_dot: "isAlpha c \<Longrightarrow> c \<noteq> CHR ''.''"
  by (auto simp: isAlpha_def)

lemma isAlpha_not_slash: "isAlpha c \<Longrightarrow> c \<noteq> CHR ''/''"
  by (auto simp: isAlpha_def)

lemma isAlpha_notLineTerminator: "isAlpha c \<Longrightarrow> notLineTerminator c"
  by (auto simp: isAlpha_def notLineTerminator_def isLineTerminator_def)

lemma ratioMatchAt_SomeD:
  assumes "ratioMatchAt s = Some d"
  shows "\<exists>x e. s = CHR ''@'' # d # x # CHR ''.'' # e \<and> isDigit d \<and> isX x
           \<and> (length e = 3 \<or> length e = 4) \<and> list_all isAlpha e"
  using assms by (cases s rule: ratioMatchAt.cases) (auto split: if_splits)

lemma ratioMatchAt_shift:
  assumes "ratioMatchAt s = Some d" and "p \<noteq> []"
  shows "ratioMatchAt (p @ s) = None"
proof (rule ccontr)
  assume "ratioMatchAt (p @ s) \<noteq> None"
  then obtain d' where m: "ratioMatchAt (p @ s) = Some d'" by auto
  from ratioMatchAt_SomeD [OF assms(1)] obtain x e where
    s: "s = CHR ''@'' # d # x # CHR ''.'' # e" and le: "length e = 3 \<or> length e = 4"
    by auto
  from ratioMatchAt_SomeD [OF m] obtain x' e' where
    ps: "p @ s = CHR ''@'' # d' # x' # CHR ''.'' # e'" and d': "isDigit d'"
    and le': "length e' = 3 \<or> length e' = 4"
    by auto
  have "length (p @ s) = length (CHR ''@'' # d' # x' # CHR ''.'' # e')"
    by (simp only: ps)
  then have "length p + length s = 4 + length e'" by simp
  with s le le' assms(2) have "length p = 1" by (cases p) auto
  then obtain c where "p = [c]" by (cases p) auto
  with ps s have "d' = CHR ''@''" by simp
  with d' show False by (simp add: at_not_digit)
qed

lemma ratioExec_append:
  assumes "ratioMatchAt s = Some d"
  shows "ratioExec (p @ s) = Some d"
proof (induction p)
  case Nil
  from assms show ?case by (cases s) auto
next
  case (Cons c p)
  have "ratioMatchAt ((c # p) @ s) = None"
    by (rule ratioMatchAt_shift [OF assms]) simp
  with Cons show ?case by simp
qed

lemma ratioExec_SomeD:
  "ratioExec s = Some d \<Longrightarrow> \<exists>p t. s = p @ t \<and> ratioMatchAt t = Some d"
proof (induction s)
  case Nil
  then show ?case by simp
next
  case (Cons c s)
  show ?case
  proof (cases "ratioMatchAt (c # s)")
    case None
    with Cons obtain p t where "s = p @ t" "ratioMatchAt t = Some d" by auto
    then have "c # s = (c # p) @ t \<and> ratioMatchAt t = Some d" by simp
    then show ?thesis by blast
  next
    case (Some d')
    with Cons.prems have "c # s = [] @ (c # s) \<and> ratioMatchAt (c # s) = Some d" by simp
    then show ?thesis by blast
  qed
qed

lemma getRatio_match:
  assumes "isDigit d" "isX x" "length e = 3 \<or> length e = 4" "list_all isAlpha e"
  shows "getRatio (p @ CHR ''@'' # d # x # CHR ''.'' # e) = digitValue d"
proof -
  have "ratioMatchAt (CHR ''@'' # d # x # CHR ''.'' # e) = Some d"
    using assms by simp
  then show ?thesis by (simp add: getRatio_def ratioExec_append)
qed

lemma getRatio_no_match:
  assumes "\<forall>p d x e. file = p @ CHR ''@'' # d # x # CHR ''.'' # e \<longrightarrow>
             \<not> (isDigit d \<and> isX x \<and> (length e = 3 \<or> length e = 4) \<and> list_all isAlpha e)"
  shows "getRatio file = 1"
proof (cases "ratioExec file")
  case None
  then show ?thesis by (simp add: getRatio_def)
next
  case (Some d)
  from ratioExec_SomeD [OF Some] obtain p t where "file = p @ t" "ratioMatchAt t = Some d"
    by auto
  with ratioMatchAt_SomeD [of t d] assms show ?thesis by blast
qed


lemma suffixMatchAt_Nil: "\<not> suffixMatchAt []"
  by (simp add: suffixMatchAt_def densityGroup_def extTail_def)

lemma stripSuffix_prefix: "prefix (stripSuffix s) s"
  by (induction s) auto

lemma stripSuffix_match: "suffixMatchAt t \<Longrightarrow> prefix (stripSuffix (pre @ t)) pre"
proof (induction pre)
  case Nil
  then show ?case by (cases t) (auto simp: suffixMatchAt_Nil)
next
  case (Cons a pre)
  then show ?case by auto
qed

lemma stripSuffix_exact:
  assumes "suffixMatchAt t"
    and "\<forall>q r. pre = q @ r \<longrightarrow> r \<noteq> [] \<longrightarrow> \<not> suffixMatchAt (r @ t)"
  shows "stripSuffix (pre @ t) = pre"
  using assms(2)
proof (induction pre)
  case Nil
  from assms(1) show ?case by (cases t) (auto simp: suffixMatchAt_Nil)
next
  case (Cons a pre)
  have "\<not> suffixMatchAt ((a # pre) @ t)"
    using Cons.prems by (metis append_Nil list.distinct(1))
  moreover have "\<forall>q r. pre = q @ r \<longrightarrow> r \<noteq> [] \<longrightarrow> \<not> suffixMatchAt (r @ t)"
    using Cons.prems by (metis append_Cons)
  ultimately show ?case using Cons.IH by simp
qed

lemma stripSuffix_no_match:
  assumes "\<forall>q r. s = q @ r \<longrightarrow> \<not> suffixMatchAt r"
  shows "stripSuffix s = s"
  using assms
proof (induction s)
  case Nil
  then show ?case by simp
next
  case (Cons a s)
  have "\<not> suffixMatchAt (a # s)"
    using Cons.prems by (metis append_Nil)
  moreover have "\<forall>q r. s = q @ r \<longrightarrow> \<not> suffixMatchAt r"
    using Cons.prems by (metis append_Cons)
  ultimately show ?case using Cons.IH by simp
qed

lemma extTail_dot: "r \<noteq> [] \<Longrightarrow> list_all notLineTerminator r \<Longrightarrow> extTail (CHR ''.'' # r)"
  by (simp add: extTail_def)

lemma densityGroup_digits:
  assumes "ds \<noteq> []" "list_all isDigit ds" "isX x"
  shows "densityGroup (CHR ''@'' # ds @ x # u) = Some u"
proof -
  have nx: "\<not> isDigit x" using assms(3) by (rule isX_not_digit)
  have "\<forall>c \<in> set ds. isDigit c" using assms(2) by (simp add: list_all_iff)
  then have t: "takeWhile isDigit (ds @ x # u) = ds" and d: "dropWhile isDigit (ds @ x # u) = x # u"
    using nx by simp_all
  show ?thesis using assms(1,3) by (simp add: densityGroup_def t d)
qed

lemma suffixMatchAt_density:
  assumes "ds \<noteq> []" "list_all isDigit ds" "isX x" "e \<noteq> []" "list_all notLineTerminator e"
  shows "suffixMatchAt (CHR ''@'' # ds @ x # CHR ''.'' # e)"
  using densityGroup_digits [OF assms(1-3), of "CHR ''.'' # e"] extTail_dot [OF assms(4,5)]
  by (simp add: suffixMatchAt_def)

lemma suffixMatchAt_first:
  assumes "suffixMatchAt s"
  shows "hd s = CHR ''.'' \<or> hd s = CHR ''@''"
  using assms by (cases s) (auto simp: suffixMatchAt_def densityGroup_def extTail_def split: if_splits)

lemma suffixMatchAt_has_dot:
  assumes "suffixMatchAt s"
  shows "CHR ''.'' \<in> set s"
proof (cases "extTail s")
  case True
  then show ?thesis by (cases s) (auto simp: extTail_def)
next
  case False
  with assms obtain u where g: "densityGroup s = Some u" and e: "extTail u"
    by (auto simp: suffixMatchAt_def split: option.splits)
  from e have du: "CHR ''.'' \<in> set u" by (cases u) (auto simp: extTail_def)
  from g obtain r x where s: "s = CHR ''@'' # r" and dw: "dropWhile isDigit r = x # u"
    by (cases s) (auto simp: densityGroup_def split: if_splits list.splits)
  have "set (dropWhile isDigit r) \<subseteq> set r"
    by (auto dest: set_dropWhileD)
  with dw du have "CHR ''.'' \<in> set r" by auto
  with s show ?thesis by simp
qed

lemma basename_append:
  assumes "s \<noteq> []" "CHR ''/'' \<notin> set s"
  shows "basename (p @ s) = rev (takeWhile (\<lambda>c. c \<noteq> CHR ''/'') (rev p)) @ s"
proof -
  have "rev s \<noteq> []" using assms(1) by simp
  then obtain a r where ar: "rev s = a # r" by (cases "rev s") auto
  then have "a \<in> set s" by (metis list.set_intros(1) set_rev)
  with assms(2) have "a \<noteq> CHR ''/''" by auto
  then have d: "dropWhile (\<lambda>c. c = CHR ''/'') (rev s @ rev p) = rev s @ rev p"
    by (simp add: ar)
  have t: "takeWhile (\<lambda>c. c \<noteq> CHR ''/'') (rev s @ rev p)
            = rev s @ takeWhile (\<lambda>c. c \<noteq> CHR ''/'') (rev p)"
    by (rule takeWhile_append2) (use assms(2) in auto)
  show ?thesis by (simp add: basename_def d t)
qed

lemma basename_decomp:
  "\<exists>q n. file = q @ basename file @ replicate n CHR ''/''"
proof -
  let ?r = "rev file"
  let ?d = "dropWhile (\<lambda>c. c = CHR ''/'') ?r"
  have 1: "?r = takeWhile (\<lambda>c. c = CHR ''/'') ?r @ ?d" by simp
  have 2: "?d = takeWhile (\<lambda>c. c \<noteq> CHR ''/'') ?d @ dropWhile (\<lambda>c. c \<noteq> CHR ''/'') ?d" by simp
  have "\<forall>c \<in> set (takeWhile (\<lambda>c. c = CHR ''/'') ?r). c = CHR ''/''"
    by (auto dest: set_takeWhileD)
  then have 3: "takeWhile (\<lambda>c. c = CHR ''/'') ?r
             = replicate (length (takeWhile (\<lambda>c. c = CHR ''/'') ?r)) CHR ''/''"
    by (simp add: replicate_length_same)
  have "file = rev ?r" by simp
  also have "\<dots> = rev ?d @ rev (takeWhile (\<lambda>c. c = CHR ''/'') ?r)"
    by (subst 1) (simp only: rev_append)
  also have "rev ?d = rev (dropWhile (\<lambda>c. c \<noteq> CHR ''/'') ?d) @ basename file"
    by (subst 2) (simp only: rev_append basename_def)
  also have "rev (takeWhile (\<lambda>c. c = CHR ''/'') ?r)
             = replicate (length (takeWhile (\<lambda>c. c = CHR ''/'') ?r)) CHR ''/''"
    by (subst 3) simp
  finally show ?thesis by (metis append.assoc)
qed

lemma basename_no_slash: "CHR ''/'' \<notin> set (basename file)"
  by (auto simp: basename_def dest: set_takeWhileD)

lemma basename_id: "CHR ''/'' \<notin> set s \<Longrightarrow> basename s = s"
proof -
  assume a: "CHR ''/'' \<notin> set s"
  then have "\<forall>c \<in> set (rev s). c \<noteq> CHR ''/''" by auto
  then have 1: "dropWhile (\<lambda>c. c = CHR ''/'') (rev s) = rev s"
    by (cases "rev s") auto
  have 2: "takeWhile (\<lambda>c. c \<noteq> CHR ''/'') (rev s) = rev s"
    using a by (intro takeWhile_eq_all_conv [THEN iffD2]) auto
  show ?thesis by (simp add: basename_def 1 2)
qed

lemma stripSuffix_no_dot: "CHR ''.'' \<notin> set s \<Longrightarrow> stripSuffix s = s"
proof (rule stripSuffix_no_match, intro allI impI)
  fix q r
  assume "CHR ''.'' \<notin> set s" "s = q @ r"
  then have "CHR ''.'' \<notin> set r" by auto
  then show "\<not> suffixMatchAt r" using suffixMatchAt_has_dot by blast
qed

lemma split_at_dot:
  assumes "a @ CHR ''.'' # b = a' @ CHR ''.'' # b'" "CHR ''.'' \<notin> set a" "CHR ''.'' \<notin> set a'"
  shows "a = a' \<and> b = b'"
proof -
  have 1: "takeWhile (\<lambda>c. c \<noteq> CHR ''.'') (a @ CHR ''.'' # b) = a"
    using assms(2) by (subst takeWhile_append2) auto
  have 2: "takeWhile (\<lambda>c. c \<noteq> CHR ''.'') (a' @ CHR ''.'' # b') = a'"
    using assms(3) by (subst takeWhile_append2) auto
  from 1 2 assms(1) have "a = a'" by simp
  with assms(1) show ?thesis by simp
qed

lemma ratioExec_multi_digit:
  assumes b: "basename file = stem @ CHR ''@'' # ds @ x # CHR ''.'' # e"
    and ds: "2 \<le> length ds" "list_all isDigit ds"
    and e: "CHR ''.'' \<notin> set e"
  shows "ratioExec file = None"
proof (rule ccontr)
  assume "ratioExec file \<noteq> None"
  then obtain d' where "ratioExec file = Some d'" by auto
  from ratioExec_SomeD [OF this] obtain p' t where f: "file = p' @ t" and m: "ratioMatchAt t = Some d'"
    by auto
  from ratioMatchAt_SomeD [OF m] obtain x' e' where
    t: "t = CHR ''@'' # d' # x' # CHR ''.'' # e'" and le: "length e' = 3 \<or> length e' = 4"
    and al: "list_all isAlpha e'"
    by auto
  from le have ne: "e' \<noteq> []" by auto
  have al': "\<forall>c \<in> set e'. isAlpha c" using al by (simp add: list_all_iff)
  then have nd: "CHR ''.'' \<notin> set e'" using isAlpha_not_dot by blast
  have "last e' \<in> set e'" using ne by simp
  with al' have "last e' \<noteq> CHR ''/''" using isAlpha_not_slash by blast
  moreover have "last file = last e'" using f t ne by simp
  ultimately have lf: "last file \<noteq> CHR ''/''" by simp
  have "\<exists>q n. file = q @ basename file @ replicate n CHR ''/''"
    by (rule basename_decomp)
  then obtain q n where d: "file = q @ basename file @ replicate n CHR ''/''"
    by blast
  have "n = 0"
  proof (rule ccontr)
    assume "n \<noteq> 0"
    then have "last (q @ basename file @ replicate n CHR ''/'') = CHR ''/''" by simp
    with d lf show False by simp
  qed
  with d b have "file = (q @ stem @ CHR ''@'' # ds @ [x]) @ CHR ''.'' # e" by simp
  moreover from f t have "file = (p' @ [CHR ''@'', d', x']) @ CHR ''.'' # e'" by simp
  ultimately have "(p' @ [CHR ''@'', d', x']) @ CHR ''.'' # e'
                 = (q @ stem @ CHR ''@'' # ds @ [x]) @ CHR ''.'' # e"
    by simp
  then have "rev ((p' @ [CHR ''@'', d', x']) @ CHR ''.'' # e')
           = rev ((q @ stem @ CHR ''@'' # ds @ [x]) @ CHR ''.'' # e)"
    by (rule arg_cong)
  then have "rev e' @ CHR ''.'' # rev (p' @ [CHR ''@'', d', x'])
           = rev e @ CHR ''.'' # rev (q @ stem @ CHR ''@'' # ds @ [x])"
    by (simp only: rev_append rev.simps append_assoc append_Cons append_Nil)
  moreover have "CHR ''.'' \<notin> set (rev e')" "CHR ''.'' \<notin> set (rev e)"
    using nd e by simp_all
  ultimately have "rev (p' @ [CHR ''@'', d', x']) = rev (q @ stem @ CHR ''@'' # ds @ [x])"
    using split_at_dot by blast
  then have r: "x' # d' # CHR ''@'' # rev p' = x # rev ds @ CHR ''@'' # rev stem @ rev q"
    by simp
  from ds(1) obtain a c rest where rd: "rev ds = a # c # rest"
    by (cases "rev ds"; cases "tl (rev ds)") (auto simp: Suc_le_eq dest: arg_cong [where f = length])
  then have "c \<in> set ds" by (metis list.set_intros(1,2) set_rev)
  then have "isDigit c" using ds(2) by (simp add: list_all_iff)
  moreover from r rd have "c = CHR ''@''" by simp
  ultimately show False by (simp add: at_not_digit)
qed


lemma stripSuffix_exact_plain:
  assumes "suffixMatchAt t" "CHR ''.'' \<notin> set pre" "CHR ''@'' \<notin> set pre"
  shows "stripSuffix (pre @ t) = pre"
proof (rule stripSuffix_exact [OF assms(1)], intro allI impI)
  fix q r
  assume pr: "pre = q @ r" and r: "r \<noteq> []"
  show "\<not> suffixMatchAt (r @ t)"
  proof
    assume "suffixMatchAt (r @ t)"
    then have "hd (r @ t) = CHR ''.'' \<or> hd (r @ t) = CHR ''@''"
      by (rule suffixMatchAt_first)
    moreover have "hd (r @ t) \<in> set pre" using pr r by simp
    ultimately show False using assms(2,3) by auto
  qed
qed

lemma getSelector_cong:
  "stripSuffix (basename f) = stripSuffix (basename g) \<Longrightarrow> getSelector ext f = getSelector ext g"
  by (simp add: getSelector_def)

lemma isDigit_not_dot: "isDigit c \<Longrightarrow> c \<noteq> CHR ''.''"
  by (auto simp: isDigit_def)

lemma isX_not_dot: "isX c \<Longrightarrow> c \<noteq> CHR ''.''"
  by (auto simp: isX_def)

lemma at_not_isX: "\<not> isX CHR ''@''"
  by (simp add: isX_def)

lemma takeWhile_isDigit_all: "c \<in> set (takeWhile isDigit s) \<Longrightarrow> isDigit c"
  by (rule set_takeWhileD [THEN conjunct2])

lemma densityGroup_SomeD:
  "densityGroup s = Some u \<Longrightarrow>
     \<exists>r x'. s = CHR ''@'' # r \<and> dropWhile isDigit r = x' # u \<and> isX x'"
  by (cases s) (auto simp: densityGroup_def split: if_splits list.splits)

lemma stripSuffix_density_exact:
  assumes ds: "ds \<noteq> []" "list_all isDigit ds" and x: "isX x"
    and e: "e \<noteq> []" "list_all notLineTerminator e"
    and nd: "CHR ''.'' \<notin> set stem"
  shows "stripSuffix (stem @ CHR ''@'' # ds @ x # CHR ''.'' # e) = stem"
proof (rule stripSuffix_exact)
  show "suffixMatchAt (CHR ''@'' # ds @ x # CHR ''.'' # e)"
    using ds x e by (rule suffixMatchAt_density)
  show "\<forall>q r. stem = q @ r \<longrightarrow> r \<noteq> [] \<longrightarrow> \<not> suffixMatchAt (r @ CHR ''@'' # ds @ x # CHR ''.'' # e)"
  proof (intro allI impI)
    fix q r
    assume st: "stem = q @ r" and rn: "r \<noteq> []"
    let ?sfx = "CHR ''@'' # ds @ x # CHR ''.'' # e"
    have rd: "CHR ''.'' \<notin> set r" using st nd by simp
    have dsd: "\<forall>c \<in> set ds. c \<noteq> CHR ''.''"
      using ds(2) isDigit_not_dot by (auto simp: list_all_iff)
    show "\<not> suffixMatchAt (r @ ?sfx)"
    proof
      assume m: "suffixMatchAt (r @ ?sfx)"
      obtain a r' where r: "r = a # r'" using rn by (cases r) auto
      have a: "a \<noteq> CHR ''.''" using rd r by auto
      then have "\<not> extTail (r @ ?sfx)" by (simp add: r extTail_def)
      with m obtain u where g: "densityGroup (r @ ?sfx) = Some u" and t: "extTail u"
        by (auto simp: suffixMatchAt_def split: option.splits)
      from t obtain v where u: "u = CHR ''.'' # v" by (cases u) (simp_all add: extTail_def)
      define rest where "rest = r' @ ?sfx"
      from densityGroup_SomeD [OF g] obtain r0 x' where
        r0: "r @ ?sfx = CHR ''@'' # r0" and dw0: "dropWhile isDigit r0 = x' # u" and x': "isX x'"
        by blast
      from r0 have "r0 = rest" by (simp add: r rest_def)
      with dw0 have dw: "dropWhile isDigit rest = x' # u" by (simp only:)
      define tk where "tk = takeWhile isDigit rest"
      have tkd: "\<forall>c \<in> set tk. isDigit c"
        unfolding tk_def using takeWhile_isDigit_all by blast
      have "tk @ x' # CHR ''.'' # v = rest"
        by (metis takeWhile_dropWhile_id dw u tk_def)
      then have eq: "(r' @ CHR ''@'' # ds @ [x]) @ CHR ''.'' # e = (tk @ [x']) @ CHR ''.'' # v"
        by (simp add: rest_def)
      have 1: "CHR ''.'' \<notin> set (r' @ CHR ''@'' # ds @ [x])"
        using rd r dsd isX_not_dot [OF x] by auto
      have "\<forall>c \<in> set tk. c \<noteq> CHR ''.''"
        using tkd isDigit_not_dot by blast
      then have 2: "CHR ''.'' \<notin> set (tk @ [x'])"
        using isX_not_dot [OF x'] by auto
      from split_at_dot [OF eq 1 2] have le: "r' @ CHR ''@'' # ds @ [x] = tk @ [x']" by simp
      have "CHR ''@'' \<in> set (r' @ CHR ''@'' # ds @ [x])" by simp
      then have "CHR ''@'' \<in> set (tk @ [x'])" unfolding le .
      then have "CHR ''@'' \<in> set tk \<or> CHR ''@'' = x'"
        unfolding set_append by (simp only: Un_iff list.set insert_iff empty_iff simp_thms)
      then show False
      proof
        assume "CHR ''@'' \<in> set tk"
        then have "isDigit CHR ''@''" using tkd by blast
        then show False by (simp add: at_not_digit)
      next
        assume "CHR ''@'' = x'"
        with x' show False by (metis at_not_isX)
      qed
    qed
  qed
qed

section \<open>Properties of split, pop and replace\<close>

lemma pop_last: "xs \<noteq> [] \<Longrightarrow> pop xs = Some (last xs)"
  by (cases xs rule: rev_cases) (simp_all add: pop_def)

lemma splitOn_nonempty: "splitOn c s \<noteq> []"
  by (cases s) (auto split: list.splits)

lemma splitOn_no_sep: "c \<notin> set s \<Longrightarrow> splitOn c s = [s]"
  by (induction s) auto

lemma splitOn_sep: "c \<in> set s \<Longrightarrow> \<exists>w v vs. splitOn c s = w # v # vs"
proof (induction s)
  case Nil
  then show ?case by simp
next
  case (Cons a s)
  show ?case
  proof (cases "a = c")
    case True
    obtain v vs where "splitOn c s = v # vs"
      using splitOn_nonempty [of c s] by (cases "splitOn c s") auto
    with True show ?thesis by simp
  next
    case False
    with Cons.prems have "c \<in> set s" by simp
    with Cons.IH obtain w v vs where "splitOn c s = w # v # vs" by blast
    with False show ?thesis by simp
  qed
qed

lemma textAfterLast_Cons:
  "textAfterLast c (a # s) = (if c \<in> set s then textAfterLast c s else if a = c then s else a # s)"
proof (cases "c \<in> set s")
  case True
  then have "takeWhile (\<lambda>x. x \<noteq> c) (rev s @ [a]) = takeWhile (\<lambda>x. x \<noteq> c) (rev s)"
    by (intro takeWhile_append1 [where x = c]) simp_all
  with True show ?thesis by (simp add: textAfterLast_def)
next
  case False
  then have "takeWhile (\<lambda>x. x \<noteq> c) (rev s @ [a]) = rev s @ takeWhile (\<lambda>x. x \<noteq> c) [a]"
    by (intro takeWhile_append2) auto
  with False show ?thesis by (simp add: textAfterLast_def)
qed

lemma last_splitOn: "last (splitOn c s) = textAfterLast c s"
proof (induction s)
  case Nil
  then show ?case by (simp add: textAfterLast_def)
next
  case (Cons a s)
  show ?case
  proof (cases "c \<in> set s")
    case True
    from splitOn_sep [OF True] obtain w v vs where sp: "splitOn c s = w # v # vs" by blast
    with Cons True show ?thesis by (simp add: textAfterLast_Cons)
  next
    case False
    then have "splitOn c s = [s]" by (rule splitOn_no_sep)
    with False show ?thesis by (simp add: textAfterLast_Cons)
  qed
qed

lemma pop_splitOn: "pop (splitOn c s) = Some (textAfterLast c s)"
  by (simp add: pop_last splitOn_nonempty last_splitOn)

lemma textAfterLast_no_sep: "c \<notin> set (textAfterLast c s)"
  by (auto simp: textAfterLast_def dest: set_takeWhileD)

lemma split_at_last:
  assumes "c \<in> set s"
  shows "s = textBeforeLast c s @ c # textAfterLast c s"
proof -
  let ?d = "dropWhile (\<lambda>x. x \<noteq> c) (rev s)"
  have "c \<in> set (rev s)" using assms by simp
  then have ne: "?d \<noteq> []" by auto
  then have "\<not> (hd ?d \<noteq> c)" by (rule hd_dropWhile)
  with ne have d: "?d = c # tl ?d" by (cases ?d) auto
  have "rev s = takeWhile (\<lambda>x. x \<noteq> c) (rev s) @ ?d" by simp
  then have "rev s = takeWhile (\<lambda>x. x \<noteq> c) (rev s) @ c # tl ?d" using d by simp
  then have "rev (rev s) = rev (takeWhile (\<lambda>x. x \<noteq> c) (rev s) @ c # tl ?d)" by (rule arg_cong)
  then show ?thesis by (simp add: textAfterLast_def textBeforeLast_def)
qed

lemma removeFirst_keeps:
  assumes "c \<in> set s" "c \<notin> set p"
  shows "c \<in> set (removeFirst p s)"
  using assms(1)
proof (induction s)
  case Nil
  then show ?case by simp
next
  case (Cons a s)
  show ?case
  proof (cases "prefix p (a # s)")
    case True
    then obtain r where r: "a # s = p @ r" by (auto simp: prefix_def)
    then have "drop (length p) (a # s) = r" by (metis append_eq_conv_conj)
    moreover have "c \<in> set (p @ r)" using Cons.prems r by metis
    ultimately show ?thesis using True assms(2) by auto
  next
    case False
    with Cons show ?thesis by auto
  qed
qed

section \<open>Properties of sortBy and groupBy\<close>

lemma groupBy_snoc: "groupBy (xs @ [x]) = groupAdd x (groupBy xs)"
  by (simp add: groupBy_def)

lemma groupAdd_keys: "fst ` set (groupAdd x acc) = insert (ratio x) (fst ` set acc)"
  by (induction x acc rule: groupAdd.induct) auto

lemma groupAdd_sorted:
  "sorted_wrt (<) (map fst acc) \<Longrightarrow> sorted_wrt (<) (map fst (groupAdd x acc))"
proof (induction x acc rule: groupAdd.induct)
  case (1 im)
  then show ?case by simp
next
  case (2 im k g rest)
  have "\<forall>j \<in> fst ` set (groupAdd im rest). k < j" if "k < ratio im"
    using that 2(2) by (auto simp: groupAdd_keys)
  with 2 show ?case by auto
qed

lemma groupAdd_map_of:
  "sorted_wrt (<) (map fst acc) \<Longrightarrow>
   map_of (groupAdd x acc) =
     (map_of acc)(ratio x \<mapsto> (case map_of acc (ratio x) of None \<Rightarrow> [x] | Some g \<Rightarrow> g @ [x]))"
proof (induction x acc rule: groupAdd.induct)
  case (1 im)
  then show ?case by simp
next
  case (2 im k g rest)
  show ?case
  proof (cases "ratio im = k")
    case True
    then show ?thesis by (auto simp: fun_eq_iff)
  next
    case ne: False
    show ?thesis
    proof (cases "ratio im < k")
      case True
      have "ratio im \<notin> fst ` set rest" using True 2(2) by auto
      then have "map_of rest (ratio im) = None" by (simp add: map_of_eq_None_iff)
      with True ne show ?thesis by (auto simp: fun_eq_iff)
    next
      case False
      with ne 2 show ?thesis by (auto simp: fun_eq_iff)
    qed
  qed
qed

lemma groupBy_sorted: "sorted_wrt (<) (map fst (groupBy xs))"
  by (induction xs rule: rev_induct) (simp_all add: groupBy_snoc groupAdd_sorted groupBy_def)

lemma groupBy_map_of:
  "map_of (groupBy xs) k =
     (if k \<in> ratio ` set xs then Some (filter (\<lambda>im. ratio im = k) xs) else None)"
proof (induction xs rule: rev_induct)
  case Nil
  then show ?case by (simp add: groupBy_def)
next
  case (snoc x xs)
  show ?case
  proof (cases "ratio x \<in> ratio ` set xs")
    case True
    with snoc show ?thesis
      by (auto simp: groupBy_snoc groupAdd_map_of [OF groupBy_sorted])
  next
    case False
    then have "\<forall>im \<in> set xs. ratio im \<noteq> ratio x"
      by (metis imageI)
    then have "filter (\<lambda>im. ratio im = ratio x) xs = []"
      by (simp add: filter_empty_conv)
    with False snoc show ?thesis
      by (auto simp: groupBy_snoc groupAdd_map_of [OF groupBy_sorted])
  qed
qed

lemma assoc_list_eq:
  assumes "distinct (map fst l)"
  shows "l = map (\<lambda>k. (k, the (map_of l k))) (map fst l)"
proof -
  have "map (\<lambda>p. (fst p, the (map_of l (fst p)))) l = map (\<lambda>p. p) l"
    by (rule map_cong) (auto simp: map_of_is_SomeI [OF assms])
  then show ?thesis by (simp add: comp_def)
qed

lemma groupBy_keys: "map fst (groupBy xs) = sorted_list_of_set (ratio ` set xs)"
proof -
  have d: "dom (map_of (groupBy xs)) = ratio ` set xs"
    by (auto simp: dom_def groupBy_map_of)
  have s: "set (map fst (groupBy xs)) = ratio ` set xs"
    using d by (simp add: dom_map_of_conv_image_fst)
  have "sorted_wrt (<) (map fst (groupBy xs))" by (rule groupBy_sorted)
  then show ?thesis
    using s by (metis sorted_list_of_set.idem_if_sorted_distinct strict_sorted_iff)
qed

lemma groupBy_eq:
  "groupBy xs =
     map (\<lambda>k. (k, filter (\<lambda>im. ratio im = k) xs)) (sorted_list_of_set (ratio ` set xs))"
proof -
  have "distinct (map fst (groupBy xs))"
    using groupBy_sorted [of xs] by (simp add: strict_sorted_iff)
  then have "groupBy xs = map (\<lambda>k. (k, the (map_of (groupBy xs) k))) (map fst (groupBy xs))"
    by (rule assoc_list_eq)
  also have "\<dots> = map (\<lambda>k. (k, the (map_of (groupBy xs) k))) (sorted_list_of_set (ratio ` set xs))"
    by (simp only: groupBy_keys)
  also have "\<dots> = map (\<lambda>k. (k, filter (\<lambda>im. ratio im = k) xs)) (sorted_list_of_set (ratio ` set xs))"
    by (rule map_cong) (simp_all add: groupBy_map_of)
  finally show ?thesis .
qed

lemma prepareImages_eq:
  "prepareImages ext paths ss =
     map (\<lambda>k. (k, filter (\<lambda>im. ratio im = k) (map (makeImage ext ss) paths)))
       (sorted_list_of_set (ratio ` set (map (makeImage ext ss) paths)))"
  by (simp add: prepareImages_def groupBy_eq sortBy_def sort_key_stable)

lemma prepareImages_keys:
  "map fst (prepareImages ext paths ss)
     = sorted_list_of_set (ratio ` set (map (makeImage ext ss) paths))"
  by (simp add: prepareImages_eq comp_def)

lemma prepareImages_member:
  assumes "f \<in> set paths"
  shows "(getRatio f, filter (\<lambda>im. ratio im = getRatio f) (map (makeImage ext ss) paths))
           \<in> set (prepareImages ext paths ss)"
proof -
  have "ratio (makeImage ext ss f) = getRatio f" by (simp add: makeImage_def)
  then have "getRatio f \<in> ratio ` set (map (makeImage ext ss) paths)"
    using assms by (metis image_eqI image_set)
  then have "getRatio f \<in> set (sorted_list_of_set (ratio ` set (map (makeImage ext ss) paths)))"
    by simp
  then show ?thesis by (simp add: prepareImages_eq image_iff)
qed

section \<open>The filename parser\<close>

text \<open>
  Claim C3, as amended. The ratio is the digit \<open>d\<close> for every path that ends with \<open>@\<close>, one
  decimal digit \<open>d\<close>, \<open>x\<close> or \<open>X\<close>, a dot and three or four ASCII letters; the name that
  the selector is built from is then an initial part of the basename with that suffix cut
  off. For every path that does not end so, the ratio is 1.
\<close>

theorem getRatio_density_suffix:
  "(isDigit d \<and> isX x \<and> (length e = 3 \<or> length e = 4) \<and> list_all isAlpha e \<longrightarrow>
      getRatio (p @ CHR ''@'' # d # x # CHR ''.'' # e) = digitValue d
      \<and> (\<exists>pre. basename (p @ CHR ''@'' # d # x # CHR ''.'' # e)
                  = pre @ CHR ''@'' # d # x # CHR ''.'' # e
               \<and> prefix (stripSuffix (basename (p @ CHR ''@'' # d # x # CHR ''.'' # e))) pre))
   \<and> ((\<forall>p d x e. file = p @ CHR ''@'' # d # x # CHR ''.'' # e \<longrightarrow>
          \<not> (isDigit d \<and> isX x \<and> (length e = 3 \<or> length e = 4) \<and> list_all isAlpha e))
        \<longrightarrow> getRatio file = 1)"
proof (intro conjI impI)
  assume h: "isDigit d \<and> isX x \<and> (length e = 3 \<or> length e = 4) \<and> list_all isAlpha e"
  then show "getRatio (p @ CHR ''@'' # d # x # CHR ''.'' # e) = digitValue d"
    by (simp add: getRatio_match)
  let ?sfx = "CHR ''@'' # d # x # CHR ''.'' # e"
  have al: "\<forall>c \<in> set e. isAlpha c" using h by (simp add: list_all_iff)
  have ne: "e \<noteq> []" using h by auto
  have "CHR ''/'' \<notin> set ?sfx"
    using h al by (auto simp: isDigit_def isX_def dest: isAlpha_not_slash)
  then have b: "basename (p @ ?sfx) = rev (takeWhile (\<lambda>c. c \<noteq> CHR ''/'') (rev p)) @ ?sfx"
    by (intro basename_append) simp_all
  have "list_all notLineTerminator e"
    using al by (simp add: list_all_iff isAlpha_notLineTerminator)
  then have "suffixMatchAt (CHR ''@'' # [d] @ x # CHR ''.'' # e)"
    using h ne by (intro suffixMatchAt_density) simp_all
  then have "suffixMatchAt ?sfx" by simp
  then have "prefix (stripSuffix (rev (takeWhile (\<lambda>c. c \<noteq> CHR ''/'') (rev p)) @ ?sfx))
               (rev (takeWhile (\<lambda>c. c \<noteq> CHR ''/'') (rev p)))"
    by (rule stripSuffix_match)
  with b show "\<exists>pre. basename (p @ ?sfx) = pre @ ?sfx \<and> prefix (stripSuffix (basename (p @ ?sfx))) pre"
    by auto
next
  assume "\<forall>p d x e. file = p @ CHR ''@'' # d # x # CHR ''.'' # e \<longrightarrow>
            \<not> (isDigit d \<and> isX x \<and> (length e = 3 \<or> length e = 4) \<and> list_all isAlpha e)"
  then show "getRatio file = 1" by (rule getRatio_no_match)
qed

theorem getRatio_density_suffix_witness:
  "getRatio ''images/circle@2x.png'' = 2
   \<and> prefix (stripSuffix (basename ''images/circle@2x.png'')) ''circle''
   \<and> getRatio ''images/circle.png'' = 1"
proof -
  note t = getRatio_density_suffix [of "CHR ''2''" "CHR ''x''" "''png''" "''images/circle''"
      "''images/circle.png''"]
  have h: "isDigit CHR ''2'' \<and> isX CHR ''x'' \<and> (length ''png'' = 3 \<or> length ''png'' = 4)
            \<and> list_all isAlpha ''png''"
    by (simp add: isDigit_def isX_def isAlpha_def)
  from t h have 1: "getRatio ''images/circle@2x.png'' = digitValue CHR ''2''"
    and "\<exists>pre. basename ''images/circle@2x.png'' = pre @ ''@2x.png''
           \<and> prefix (stripSuffix (basename ''images/circle@2x.png'')) pre"
    by simp_all
  then obtain pre where b: "basename ''images/circle@2x.png'' = pre @ ''@2x.png''"
    and p: "prefix (stripSuffix (basename ''images/circle@2x.png'')) pre"
    by blast
  have "basename ''images/circle@2x.png'' = ''circle'' @ ''@2x.png''"
    by (simp add: basename_def)
  with b have "pre = ''circle''" by (simp only: append_same_eq)
  with p have 2: "prefix (stripSuffix (basename ''images/circle@2x.png'')) ''circle''" by simp
  have "\<forall>p d x e. ''images/circle.png'' = p @ CHR ''@'' # d # x # CHR ''.'' # e \<longrightarrow>
          \<not> (isDigit d \<and> isX x \<and> (length e = 3 \<or> length e = 4) \<and> list_all isAlpha e)"
  proof (intro allI impI)
    fix p d x e
    assume "''images/circle.png'' = p @ CHR ''@'' # d # x # CHR ''.'' # e"
    then have "CHR ''@'' \<in> set ''images/circle.png''"
      by (metis in_set_conv_decomp)
    then have False by simp
    then show "\<not> (isDigit d \<and> isX x \<and> (length e = 3 \<or> length e = 4) \<and> list_all isAlpha e)" ..
  qed
  with t have 3: "getRatio ''images/circle.png'' = 1" by blast
  from 1 2 3 show ?thesis by (simp add: digitValue_def)
qed

text \<open>
  The claim as first stated asks for the ratio 2 whenever the basename ends with \<open>@2x\<close>
  before the extension. An extension that is not made of three or four letters gives 1.
\<close>

theorem getRatio_short_extension_counterexample:
  "getRatio ''icon@2x.jp2'' = 1 \<and> getRatio ''icon@2x.jp2'' \<noteq> digitValue CHR ''2''"
  by code_simp

text \<open>
  Claim C9, as amended. Take a path whose basename ends with \<open>@\<close>, two or more decimal
  digits, \<open>x\<close> and an extension: a dot and one or more characters, none of them a dot or a
  line terminator. The ratio parser returns 1, while the selector builder strips the
  suffix: the name that the selector is built from is an initial part of the text before
  the \<open>@\<close>, and it is that text when the text has no dot. When the text has no underscore
  either, the selector is a dot followed by the kebab case of the text. In a batch, the
  descriptor of the path stands in the group of the ratio 1, whose block is the bare rules
  with no media query.
\<close>

theorem multi_digit_density_suffix:
  assumes "basename file = stem @ CHR ''@'' # ds @ x # CHR ''.'' # e"
    and "2 \<le> length ds" and "list_all isDigit ds" and "isX x"
    and "e \<noteq> []" and "CHR ''.'' \<notin> set e" and "list_all notLineTerminator e"
  shows "getRatio file = 1
    \<and> prefix (stripSuffix (basename file)) stem
    \<and> (CHR ''.'' \<notin> set stem \<longrightarrow> stripSuffix (basename file) = stem)
    \<and> (CHR ''.'' \<notin> set stem \<and> CHR ''_'' \<notin> set stem \<longrightarrow>
          getSelector ext file = CHR ''.'' # kebabCase ext stem)
    \<and> (file \<in> set paths \<longrightarrow>
          (\<exists>g. (1, g) \<in> set (prepareImages ext paths stylesheet)
             \<and> makeImage ext stylesheet file \<in> set g
             \<and> compileCSS ext g 1 = joinWith [NL] (map (cssRule ext) g)))"
proof -
  have r: "getRatio file = 1"
    using ratioExec_multi_digit [OF assms(1,2,3,6)] by (simp add: getRatio_def)
  have ne: "ds \<noteq> []" using assms(2) by auto
  have m: "suffixMatchAt (CHR ''@'' # ds @ x # CHR ''.'' # e)"
    using ne assms(3,4,5,7) by (rule suffixMatchAt_density)
  have p: "prefix (stripSuffix (basename file)) stem"
    unfolding assms(1) using m by (rule stripSuffix_match)
  have n: "stripSuffix (basename file) = stem" if "CHR ''.'' \<notin> set stem"
    unfolding assms(1) using ne assms(3,4,5,7) that by (rule stripSuffix_density_exact)
  have s: "getSelector ext file = CHR ''.'' # kebabCase ext stem"
    if "CHR ''.'' \<notin> set stem \<and> CHR ''_'' \<notin> set stem"
  proof -
    have "stripSuffix (basename file) = stem" using that by (simp add: n)
    then show ?thesis
      using that by (simp add: getSelector_def getBase_def getPseudo_def truthy_def)
  qed
  have c: "\<exists>g. (1, g) \<in> set (prepareImages ext paths stylesheet)
             \<and> makeImage ext stylesheet file \<in> set g
             \<and> compileCSS ext g 1 = joinWith [NL] (map (cssRule ext) g)"
    if "file \<in> set paths"
  proof -
    let ?g = "filter (\<lambda>im. ratio im = 1) (map (makeImage ext stylesheet) paths)"
    have "(1, ?g) \<in> set (prepareImages ext paths stylesheet)"
      using prepareImages_member [OF that, of ext stylesheet] by (simp add: r)
    moreover have "ratio (makeImage ext stylesheet file) = 1"
      using r by (simp add: makeImage_def)
    then have "makeImage ext stylesheet file \<in> set ?g"
      using that by simp
    moreover have "compileCSS ext ?g 1 = joinWith [NL] (map (cssRule ext) ?g)"
      by (simp add: compileCSS_def)
    ultimately show ?thesis by blast
  qed
  from r p n s c show ?thesis by blast
qed

theorem multi_digit_density_suffix_witness:
  "getRatio ''icon@10x.png'' = 1
   \<and> stripSuffix (basename ''icon@10x.png'') = ''icon''
   \<and> getSelector exampleExternals ''icon@10x.png'' = ''.icon''
   \<and> (\<exists>g. (1, g) \<in> set (prepareImages exampleExternals [''icon@2x.png'', ''icon@10x.png'']
                         ''css/style.css'')
          \<and> makeImage exampleExternals ''css/style.css'' ''icon@10x.png'' \<in> set g
          \<and> compileCSS exampleExternals g 1 = joinWith [NL] (map (cssRule exampleExternals) g))"
proof -
  have h: "basename ''icon@10x.png'' = ''icon'' @ CHR ''@'' # ''10'' @ CHR ''x'' # CHR ''.'' # ''png''"
    by (simp add: basename_def)
  have d: "list_all isDigit ''10''" by (simp add: isDigit_def)
  have l: "list_all notLineTerminator ''png''"
    by (simp add: notLineTerminator_def isLineTerminator_def)
  have k: "kebabCase exampleExternals ''icon'' = ''icon''" by code_simp
  have "CHR ''.'' \<notin> set ''icon'' \<and> CHR ''_'' \<notin> set ''icon''" by simp
  moreover have "''icon@10x.png'' \<in> set [''icon@2x.png'', ''icon@10x.png'']" by simp
  ultimately show ?thesis
    using multi_digit_density_suffix [OF h _ d _ _ _ l, of exampleExternals
        "[''icon@2x.png'', ''icon@10x.png'']" "''css/style.css''"] k
    by (simp add: isX_def)
qed

text \<open>
  The claim as first stated covers every extension. The dot of the regular expression
  matches no line terminator: with a line feed in the extension nothing is stripped, and
  the name keeps the density suffix and the extension.
\<close>

theorem multi_digit_density_suffix_counterexample:
  "getRatio ''icon@10x.p\<newline>g'' = 1
   \<and> stripSuffix (basename ''icon@10x.p\<newline>g'') = ''icon@10x.p\<newline>g''
   \<and> \<not> prefix (stripSuffix (basename ''icon@10x.p\<newline>g'')) ''icon''"
  by code_simp

text \<open>
  Claim C10, as amended. Take a basename whose first dot is followed by at least one
  character and by no line terminator, as is the case for a basename on one line with
  more than one dot. The name that the selector is built from is an initial part of the
  text before the first dot, so all from the first dot on is stripped; when that text has
  no \<open>@\<close> the name is the text itself, and the selector is the one of that text alone.
\<close>

theorem strips_from_first_dot:
  assumes "basename file = s @ CHR ''.'' # r" and "CHR ''.'' \<notin> set s"
    and "r \<noteq> []" and "list_all notLineTerminator r"
  shows "prefix (stripSuffix (basename file)) s
    \<and> (CHR ''@'' \<notin> set s \<longrightarrow>
          stripSuffix (basename file) = s \<and> getSelector ext file = getSelector ext s)"
proof -
  have "extTail (CHR ''.'' # r)" using assms(3,4) by (rule extTail_dot)
  then have m: "suffixMatchAt (CHR ''.'' # r)" by (simp add: suffixMatchAt_def)
  have p: "prefix (stripSuffix (basename file)) s"
    unfolding assms(1) using m by (rule stripSuffix_match)
  have e: "stripSuffix (basename file) = s \<and> getSelector ext file = getSelector ext s"
    if "CHR ''@'' \<notin> set s"
  proof -
    have 1: "stripSuffix (basename file) = s"
      unfolding assms(1) using m assms(2) that by (rule stripSuffix_exact_plain)
    have "CHR ''/'' \<notin> set s"
      using basename_no_slash [of "file"] by (simp add: assms(1))
    then have "basename s = s" by (rule basename_id)
    moreover have "stripSuffix s = s" using assms(2) by (rule stripSuffix_no_dot)
    ultimately have "getSelector ext file = getSelector ext s"
      using 1 by (intro getSelector_cong) simp
    with 1 show ?thesis by simp
  qed
  from p e show ?thesis by blast
qed

theorem strips_from_first_dot_witness:
  "prefix (stripSuffix (basename ''my.icon.png'')) ''my''
   \<and> stripSuffix (basename ''my.icon.png'') = ''my''
   \<and> getSelector exampleExternals ''my.icon.png'' = getSelector exampleExternals ''my''"
proof -
  have h: "basename ''my.icon.png'' = ''my'' @ CHR ''.'' # ''icon.png''"
    by (simp add: basename_def)
  have l: "list_all notLineTerminator ''icon.png''"
    by (simp add: notLineTerminator_def isLineTerminator_def)
  have "CHR ''@'' \<notin> set ''my''" by simp
  with strips_from_first_dot [OF h _ _ l, of exampleExternals]
  show ?thesis by simp
qed

text \<open>
  The claim as first stated covers every basename with more than one dot. The dot of the
  regular expression matches no line terminator: with a line feed after the first dot, the
  match starts at a later dot and the first dot stays in the name.
\<close>

theorem strips_from_first_dot_counterexample:
  "stripSuffix (basename ''a.b\<newline>.c'') = ''a.b\<newline>''
   \<and> getSelector exampleExternals ''a.b\<newline>.c'' \<noteq> getSelector exampleExternals ''a''"
  by code_simp

section \<open>The selector builder\<close>

text \<open>
  Claim C8. When the name left after stripping has no underscore, the selector is a dot
  followed by the kebab case of that name, whatever function \<open>kebabCase\<close> is. With the
  kebab case of the specification (lowercase words joined by hyphens), the path
  \<open>Icon.PNG\<close> gives the selector \<open>.icon\<close>.
\<close>

theorem getSelector_no_pseudo:
  "(CHR ''_'' \<notin> set (stripSuffix (basename file)) \<longrightarrow>
      getSelector ext file = CHR ''.'' # kebabCase ext (stripSuffix (basename file)))
   \<and> getSelector exampleExternals ''Icon.PNG'' = ''.icon''"
proof
  show "CHR ''_'' \<notin> set (stripSuffix (basename file)) \<longrightarrow>
      getSelector ext file = CHR ''.'' # kebabCase ext (stripSuffix (basename file))"
    by (simp add: getSelector_def getBase_def getPseudo_def truthy_def)
  show "getSelector exampleExternals ''Icon.PNG'' = ''.icon''"
    by code_simp
qed

theorem getSelector_no_pseudo_witness:
  "CHR ''_'' \<notin> set (stripSuffix (basename ''images/Icon.PNG''))
   \<and> getSelector exampleExternals ''images/Icon.PNG''
       = CHR ''.'' # kebabCase exampleExternals ''Icon''"
proof -
  have n: "stripSuffix (basename ''images/Icon.PNG'') = ''Icon''"
    by code_simp
  then have "CHR ''_'' \<notin> set (stripSuffix (basename ''images/Icon.PNG''))" by simp
  with getSelector_no_pseudo [of "''images/Icon.PNG''" exampleExternals] n
  show ?thesis by simp
qed

text \<open>
  Claim C1, as amended. When the name left after stripping the extension and the density
  suffix contains an underscore, the name splits at its last underscore and the pseudo
  state is the text after it. When that text is not empty, the selector is made of the six
  clauses of \<open>pseudoSelector\<close>, each but the last ending with a comma and a line feed, for
  that pseudo state and the base token that \<open>getBase\<close> gives. When nothing follows the
  last underscore there is no pseudo state, and the selector is a dot followed by the kebab
  case of the whole name.
\<close>

theorem getSelector_pseudo_state:
  assumes "name = stripSuffix (basename file)" and "CHR ''_'' \<in> set name"
  shows "name = textBeforeLast CHR ''_'' name @ CHR ''_'' # textAfterLast CHR ''_'' name
    \<and> CHR ''_'' \<notin> set (textAfterLast CHR ''_'' name)
    \<and> getPseudo name = Some (textAfterLast CHR ''_'' name)
    \<and> (textAfterLast CHR ''_'' name \<noteq> [] \<longrightarrow>
          (\<exists>b. getBase name = Some b
             \<and> getSelector ext file = pseudoSelector b (textAfterLast CHR ''_'' name)))
    \<and> (textAfterLast CHR ''_'' name = [] \<longrightarrow>
          getSelector ext file = CHR ''.'' # kebabCase ext name)"
proof -
  let ?st = "textAfterLast CHR ''_'' name"
  have 1: "name = textBeforeLast CHR ''_'' name @ CHR ''_'' # ?st"
    using assms(2) by (rule split_at_last)
  have 2: "CHR ''_'' \<notin> set ?st" by (rule textAfterLast_no_sep)
  have 3: "getPseudo name = Some ?st"
    using assms(2) by (simp add: getPseudo_def pop_splitOn)
  have b: "getBase name = Some (removeFirst ?st name)"
    using assms(2) by (simp add: getBase_def pop_splitOn)
  have "CHR ''_'' \<in> set (removeFirst ?st name)"
    using assms(2) 2 by (rule removeFirst_keeps)
  then have tb: "truthy (getBase name)" by (auto simp: b truthy_def)
  have 4: "\<exists>b. getBase name = Some b \<and> getSelector ext file = pseudoSelector b ?st"
    if "?st \<noteq> []"
    using that tb b 3 assms(1) by (simp add: getSelector_def truthy_def Let_def)
  have 5: "getSelector ext file = CHR ''.'' # kebabCase ext name" if "?st = []"
    using that 3 assms(1) by (simp add: getSelector_def truthy_def Let_def)
  from 1 2 3 4 5 show ?thesis by blast
qed

theorem getSelector_pseudo_state_witness:
  "CHR ''_'' \<in> set (stripSuffix (basename ''button_hover.png''))
   \<and> stripSuffix (basename ''button_hover.png'') = ''button'' @ CHR ''_'' # ''hover''
   \<and> getPseudo ''button_hover'' = Some ''hover''
   \<and> (\<exists>b. getBase ''button_hover'' = Some b
         \<and> getSelector exampleExternals ''button_hover.png'' = pseudoSelector b ''hover'')"
proof -
  have n: "stripSuffix (basename ''button_hover.png'') = ''button_hover''" by code_simp
  have a: "textAfterLast CHR ''_'' ''button_hover'' = ''hover''" by code_simp
  have h: "CHR ''_'' \<in> set ''button_hover''" by simp
  from getSelector_pseudo_state [OF n [symmetric] h, of exampleExternals] n a h
  show ?thesis by simp
qed

text \<open>
  The claim as first stated gives, for \<open>button_hover.png\<close>, six clauses separated by a
  comma and a space. That is not the selector computed.
\<close>

theorem getSelector_pseudo_state_counterexample:
  "getSelector exampleExternals ''button_hover.png''
   \<noteq> ''.button-hover, a:hover .button, button:hover .button, a.hover .button, button.hover .button, .button.hover''"
  by code_simp

text \<open>
  Claim C2 asks that the six clauses follow the pattern \<open>.base-state\<close>, \<open>a:state .base\<close>
  and so on, with the text before the underscore as base. For \<open>button_hover.png\<close> the
  base token in the clauses is \<open>button_\<close>: removing the text of the pseudo state from the
  name leaves the underscore behind.
\<close>

theorem getSelector_keeps_underscore:
  "getSelector exampleExternals ''button_hover.png''
     = ''.button_-hover,\<newline>a:hover .button_,\<newline>button:hover .button_,\<newline>a.hover .button_,\<newline>button.hover .button_,\<newline>.button_.hover''
   \<and> getSelector exampleExternals ''button_hover.png'' \<noteq> pseudoSelector ''button'' ''hover''"
  by code_simp

section \<open>Grouping and emission\<close>

text \<open>
  Claim C6. The groups are those of the ratios that occur, and the group of a ratio holds
  the descriptors of that ratio in the order of the input paths. The output is made of the
  blocks of these groups, and the rules of a block are the rules of the descriptors of its
  group, in that same order, one per line.
\<close>

theorem grouping_is_stable:
  "prepareImages ext paths ss
     = map (\<lambda>r. (r, filter (\<lambda>im. ratio im = r) (map (makeImage ext ss) paths)))
         (sorted_list_of_set (ratio ` set (map (makeImage ext ss) paths)))
   \<and> processImages ext paths ss
       = joinWith [NL, NL]
           (map (\<lambda>r. compileCSS ext (filter (\<lambda>im. ratio im = r) (map (makeImage ext ss) paths)) r)
              (sorted_list_of_set (ratio ` set (map (makeImage ext ss) paths))))
   \<and> compileCSS ext g r
       = (if 1 < r then mediaQuery r (joinWith [NL] (map (cssRule ext) g))
          else joinWith [NL] (map (cssRule ext) g))"
  by (simp add: prepareImages_eq processImages_def comp_def compileCSS_def Let_def)

theorem grouping_is_stable_witness:
  "map (\<lambda>(r, g). (r, map url g))
     (prepareImages exampleExternals [''b@2x.png'', ''a.png'', ''a@2x.png'', ''b.png''] ''css/style.css'')
   = [(1, [''../a.png'', ''../b.png'']), (2, [''../b@2x.png'', ''../a@2x.png''])]"
proof -
  have "map (\<lambda>(r, g). (r, map url g))
         (map (\<lambda>r. (r, filter (\<lambda>im. ratio im = r)
                 (map (makeImage exampleExternals ''css/style.css'')
                    [''b@2x.png'', ''a.png'', ''a@2x.png'', ''b.png''])))
            (sorted_list_of_set (ratio ` set (map (makeImage exampleExternals ''css/style.css'')
               [''b@2x.png'', ''a.png'', ''a@2x.png'', ''b.png'']))))
        = [(1, [''../a.png'', ''../b.png'']), (2, [''../b@2x.png'', ''../a@2x.png''])]"
    by code_simp
  with grouping_is_stable [of exampleExternals "[''b@2x.png'', ''a.png'', ''a@2x.png'', ''b.png'']"
      "''css/style.css''"]
  show ?thesis by (simp only:)
qed

text \<open>
  Claim C5. The keys of the groups are the ratios that occur, each once and in strictly
  ascending order, and the output is the blocks of the groups in that order with one blank
  line between two blocks. The block of a ratio above 1 is the rules of the group inside
  the media query \<open>@media (-webkit-min-device-pixel-ratio: r), (min-resolution: 96r dpi)\<close>;
  the block of the ratio 1 is the rules alone.
\<close>

theorem blocks_ascending_wrapped:
  "map fst (prepareImages ext paths ss)
     = sorted_list_of_set (ratio ` set (map (makeImage ext ss) paths))
   \<and> sorted_wrt (<) (map fst (prepareImages ext paths ss))
   \<and> processImages ext paths ss
       = joinWith [NL, NL]
           (map (\<lambda>(r, g).
                  if 1 < r
                  then ''@media (-webkit-min-device-pixel-ratio: '' @ showNat r
                         @ ''), (min-resolution: '' @ showNat (r * 96) @ ''dpi) {'' @ [NL, TAB]
                         @ joinWith [NL] (map (cssRule ext) g) @ [NL] @ ''}''
                  else joinWith [NL] (map (cssRule ext) g))
              (prepareImages ext paths ss))"
proof (intro conjI)
  show "map fst (prepareImages ext paths ss)
          = sorted_list_of_set (ratio ` set (map (makeImage ext ss) paths))"
    by (rule prepareImages_keys)
  show "sorted_wrt (<) (map fst (prepareImages ext paths ss))"
    by (simp add: prepareImages_def groupBy_sorted)
  have "(\<lambda>(r, g). compileCSS ext g r)
          = (\<lambda>(r, g).
                  if 1 < r
                  then ''@media (-webkit-min-device-pixel-ratio: '' @ showNat r
                         @ ''), (min-resolution: '' @ showNat (r * 96) @ ''dpi) {'' @ [NL, TAB]
                         @ joinWith [NL] (map (cssRule ext) g) @ [NL] @ ''}''
                  else joinWith [NL] (map (cssRule ext) g))"
    by (simp add: fun_eq_iff compileCSS_def mediaQuery_def Let_def)
  then show "processImages ext paths ss
       = joinWith [NL, NL]
           (map (\<lambda>(r, g).
                  if 1 < r
                  then ''@media (-webkit-min-device-pixel-ratio: '' @ showNat r
                         @ ''), (min-resolution: '' @ showNat (r * 96) @ ''dpi) {'' @ [NL, TAB]
                         @ joinWith [NL] (map (cssRule ext) g) @ [NL] @ ''}''
                  else joinWith [NL] (map (cssRule ext) g))
              (prepareImages ext paths ss))"
    by (simp only: processImages_def)
qed

theorem blocks_ascending_wrapped_witness:
  "map fst (prepareImages exampleExternals [''images/circle@2x.png'', ''images/circle.png'']
              ''css/style.css'') = [1, 2]
   \<and> processImages exampleExternals [''images/circle@2x.png'', ''images/circle.png'']
         ''css/style.css''
       = ''.circle { background: url(../images/circle.png) no-repeat 0 0; background-size: 100% 100%; width: 50px; height: 50px; display: inline-block; vertical-align: middle; font-size: 0; }\<newline>\<newline>@media (-webkit-min-device-pixel-ratio: 2), (min-resolution: 192dpi) {\<newline>''
         @ [TAB]
         @ ''.circle { background: url(../images/circle@2x.png) no-repeat 0 0; background-size: 100% 100%; width: 25px; height: 25px; display: inline-block; vertical-align: middle; font-size: 0; }\<newline>}''"
proof -
  have k: "sorted_list_of_set (ratio ` set (map (makeImage exampleExternals ''css/style.css'')
             [''images/circle@2x.png'', ''images/circle.png''])) = [1, 2]"
    by code_simp
  have g: "prepareImages exampleExternals [''images/circle@2x.png'', ''images/circle.png'']
             ''css/style.css''
           = [(1, [makeImage exampleExternals ''css/style.css'' ''images/circle.png'']),
              (2, [makeImage exampleExternals ''css/style.css'' ''images/circle@2x.png''])]"
    by code_simp
  have r1: "cssRule exampleExternals (makeImage exampleExternals ''css/style.css'' ''images/circle.png'')
      = ''.circle { background: url(../images/circle.png) no-repeat 0 0; background-size: 100% 100%; width: 50px; height: 50px; display: inline-block; vertical-align: middle; font-size: 0; }''"
    by code_simp
  have r2: "cssRule exampleExternals (makeImage exampleExternals ''css/style.css'' ''images/circle@2x.png'')
      = ''.circle { background: url(../images/circle@2x.png) no-repeat 0 0; background-size: 100% 100%; width: 25px; height: 25px; display: inline-block; vertical-align: middle; font-size: 0; }''"
    by code_simp
  have s: "showNat 2 = ''2''" "showNat 192 = ''192''" by code_simp+
  note t = blocks_ascending_wrapped [of exampleExternals
      "[''images/circle@2x.png'', ''images/circle.png'']" "''css/style.css''"]
  from t have 1: "map fst (prepareImages exampleExternals
      [''images/circle@2x.png'', ''images/circle.png''] ''css/style.css'') = [1, 2]"
    by (simp only: k)
  from t have "processImages exampleExternals [''images/circle@2x.png'', ''images/circle.png'']
         ''css/style.css''
       = joinWith [NL, NL]
           (map (\<lambda>(r, g).
                  if 1 < r
                  then ''@media (-webkit-min-device-pixel-ratio: '' @ showNat r
                         @ ''), (min-resolution: '' @ showNat (r * 96) @ ''dpi) {'' @ [NL, TAB]
                         @ joinWith [NL] (map (cssRule exampleExternals) g) @ [NL] @ ''}''
                  else joinWith [NL] (map (cssRule exampleExternals) g))
              (prepareImages exampleExternals [''images/circle@2x.png'', ''images/circle.png'']
                 ''css/style.css''))"
    by (elim conjE)
  then have 2: "processImages exampleExternals [''images/circle@2x.png'', ''images/circle.png'']
         ''css/style.css''
       = ''.circle { background: url(../images/circle.png) no-repeat 0 0; background-size: 100% 100%; width: 50px; height: 50px; display: inline-block; vertical-align: middle; font-size: 0; }\<newline>\<newline>@media (-webkit-min-device-pixel-ratio: 2), (min-resolution: 192dpi) {\<newline>''
         @ [TAB]
         @ ''.circle { background: url(../images/circle@2x.png) no-repeat 0 0; background-size: 100% 100%; width: 25px; height: 25px; display: inline-block; vertical-align: middle; font-size: 0; }\<newline>}''"
    by (simp add: g r1 r2 s NL_def)
  from 1 2 show ?thesis by (rule conjI)
qed

text \<open>
  Claim C7 asks that a path whose name is empty after stripping the extension and the
  density suffix, such as \<open>@2x.png\<close>, gets no rule. For such a path \<open>getSelector\<close>
  returns a lone dot followed by the kebab case of the empty name, which is no selector
  although the function is documented to give a valid one, and the rule with that selector
  is written to the stylesheet beside the rules of the other paths.
\<close>

theorem empty_base_selector_is_dot:
  "stripSuffix (basename ''@2x.png'') = []
   \<and> getSelector ext ''@2x.png'' = CHR ''.'' # kebabCase ext []
   \<and> getSelector exampleExternals ''@2x.png'' = ''.''
   \<and> processImages exampleExternals [''circle.png'', ''@2x.png''] ''css/style.css''
       = ''.circle { background: url(../circle.png) no-repeat 0 0; background-size: 100% 100%; width: 50px; height: 50px; display: inline-block; vertical-align: middle; font-size: 0; }\<newline>\<newline>@media (-webkit-min-device-pixel-ratio: 2), (min-resolution: 192dpi) {\<newline>''
         @ [TAB]
         @ ''. { background: url(../@2x.png) no-repeat 0 0; background-size: 100% 100%; width: 25px; height: 25px; display: inline-block; vertical-align: middle; font-size: 0; }\<newline>}''"
proof (intro conjI)
  show n: "stripSuffix (basename ''@2x.png'') = []" by code_simp
  show "getSelector ext ''@2x.png'' = CHR ''.'' # kebabCase ext []"
    by (simp add: getSelector_def n getBase_def getPseudo_def truthy_def)
  show "getSelector exampleExternals ''@2x.png'' = ''.''" by code_simp
  show "processImages exampleExternals [''circle.png'', ''@2x.png''] ''css/style.css''
       = ''.circle { background: url(../circle.png) no-repeat 0 0; background-size: 100% 100%; width: 50px; height: 50px; display: inline-block; vertical-align: middle; font-size: 0; }\<newline>\<newline>@media (-webkit-min-device-pixel-ratio: 2), (min-resolution: 192dpi) {\<newline>''
         @ [TAB]
         @ ''. { background: url(../@2x.png) no-repeat 0 0; background-size: 100% 100%; width: 25px; height: 25px; display: inline-block; vertical-align: middle; font-size: 0; }\<newline>}''"
    by code_simp
qed

end
